theory Spec2Isabelle
  imports Main
begin

section \<open>Vanishing Tic-Tac-Toe: the game engine of gitana.py\<close>

text \<open>
  The engine keeps its whole state in the framework's session store: the board (a list of
  three rows, each a list of three strings, the empty string for an empty cell), the move
  history (oldest first), the player to move, the game-over flag, the winner and the
  vanish setting. Each function of the source that mutates the store is modelled as a
  function from the store before the call to the store after it.
\<close>

subsection \<open>Python list indexing\<close>

datatype error = IndexError

text \<open>\<open>xs[i]\<close>: a negative index counts from the end; out of range raises.\<close>

definition py_index :: "'a list \<Rightarrow> int \<Rightarrow> error + 'a" where
  "py_index xs i =
     (if 0 \<le> i \<and> i < int (length xs) then Inr (xs ! nat i)
      else if i < 0 \<and> - int (length xs) \<le> i then Inr (xs ! nat (i + int (length xs)))
      else Inl IndexError)"

text \<open>\<open>xs[i] = v\<close>, with the same index rule.\<close>

definition py_setitem :: "'a list \<Rightarrow> int \<Rightarrow> 'a \<Rightarrow> error + 'a list" where
  "py_setitem xs i v =
     (if 0 \<le> i \<and> i < int (length xs) then Inr (xs[nat i := v])
      else if i < 0 \<and> - int (length xs) \<le> i then Inr (xs[nat (i + int (length xs)) := v])
      else Inl IndexError)"

text \<open>\<open>board[row][col]\<close> read and written. The write fetches the row object and
  updates it in place; the rows of the board are separate lists, so only one row changes.\<close>

definition get_cell :: "string list list \<Rightarrow> int \<Rightarrow> int \<Rightarrow> error + string" where
  "get_cell b row col =
     (case py_index b row of Inl e \<Rightarrow> Inl e | Inr r \<Rightarrow> py_index r col)"

definition set_cell :: "string list list \<Rightarrow> int \<Rightarrow> int \<Rightarrow> string \<Rightarrow> error + string list list" where
  "set_cell b row col v =
     (case py_index b row of
        Inl e \<Rightarrow> Inl e
      | Inr r \<Rightarrow> (case py_setitem r col v of
                   Inl e \<Rightarrow> Inl e
                 | Inr r' \<Rightarrow> py_setitem b row r'))"

subsection \<open>The session state\<close>

text \<open>The timestamp of a move is the clock reading \<open>time.time()\<close>; the engine stores it
  and never computes with it, so its type is left open.\<close>

record 't session_state =
  board :: "string list list"
  move_history :: "(int \<times> int \<times> string \<times> 't) list"
  current_player :: string
  game_over :: bool
  winner :: "string option"
  vanish_after :: int

definition empty_board :: "string list list" where
  "empty_board = [['''', '''', ''''], ['''', '''', ''''], ['''', '''', '''']]"

definition reset_game :: "'t session_state \<Rightarrow> 't session_state" where
  "reset_game st =
     st\<lparr>board := empty_board, move_history := [], current_player := ''X'',
        game_over := False, winner := None\<rparr>"

text \<open>Lines 117 and 118, the two statements of the branch of the settings box: store the
  chosen value, reset the game. \<open>new_game v st\<close> is the fresh game with vanish setting
  \<open>v\<close>. The code reaches it in two ways: by that branch, which runs only when the chosen
  value differs from the stored one, and by \<open>reset_game\<close> (the New Game button) on a store
  whose setting is \<open>v\<close>.\<close>

definition new_game :: "int \<Rightarrow> 't session_state \<Rightarrow> 't session_state" where
  "new_game v st = reset_game (st\<lparr>vanish_after := v\<rparr>)"

text \<open>Lines 115 to 118, the settings box with its test: choosing the value that is already
  stored changes nothing.\<close>

definition select_vanish_after :: "int \<Rightarrow> 't session_state \<Rightarrow> 't session_state" where
  "select_vanish_after vanish_turns st =
     (if vanish_turns \<noteq> vanish_after st
      then reset_game (st\<lparr>vanish_after := vanish_turns\<rparr>)
      else st)"

subsection \<open>check_winner and is_board_full\<close>

text \<open>The chained comparison \<open>a == b == c != ''\<close>: operands are evaluated left to
  right, and \<open>c\<close> is not evaluated when \<open>a == b\<close> is false.\<close>

definition chain3 :: "error + string \<Rightarrow> error + string \<Rightarrow> error + string \<Rightarrow> error + bool" where
  "chain3 a b c =
     (case a of Inl e \<Rightarrow> Inl e | Inr x \<Rightarrow>
      (case b of Inl e \<Rightarrow> Inl e | Inr y \<Rightarrow>
       if x \<noteq> y then Inr False
       else (case c of Inl e \<Rightarrow> Inl e | Inr z \<Rightarrow> Inr (y = z \<and> z \<noteq> ''''))))"

text \<open>A \<open>return\<close> of a mark, as \<open>Some\<close> of it.\<close>

definition return_mark :: "error + string \<Rightarrow> error + string option" where
  "return_mark a = (case a of Inl e \<Rightarrow> Inl e | Inr x \<Rightarrow> Inr (Some x))"

fun check_rows :: "string list list \<Rightarrow> error + string option" where
  "check_rows [] = Inr None"
| "check_rows (row # rest) =
     (case chain3 (py_index row 0) (py_index row 1) (py_index row 2) of
        Inl e \<Rightarrow> Inl e
      | Inr w \<Rightarrow> if w then return_mark (py_index row 0) else check_rows rest)"

fun check_cols :: "string list list \<Rightarrow> int list \<Rightarrow> error + string option" where
  "check_cols b [] = Inr None"
| "check_cols b (col # cols) =
     (case chain3 (get_cell b 0 col) (get_cell b 1 col) (get_cell b 2 col) of
        Inl e \<Rightarrow> Inl e
      | Inr w \<Rightarrow> if w then return_mark (get_cell b 0 col) else check_cols b cols)"

definition check_diagonals :: "string list list \<Rightarrow> error + string option" where
  "check_diagonals b =
     (case chain3 (get_cell b 0 0) (get_cell b 1 1) (get_cell b 2 2) of
        Inl e \<Rightarrow> Inl e
      | Inr w \<Rightarrow>
          if w then return_mark (get_cell b 0 0)
          else (case chain3 (get_cell b 0 2) (get_cell b 1 1) (get_cell b 2 0) of
                  Inl e \<Rightarrow> Inl e
                | Inr w' \<Rightarrow> if w' then return_mark (get_cell b 0 2) else Inr None))"

text \<open>A loop that returns gives \<open>Some\<close> mark; one that falls through gives \<open>None\<close>
  and the next part of the function runs.\<close>

definition check_winner :: "string list list \<Rightarrow> error + string option" where
  "check_winner b =
     (case check_rows b of
        Inl e \<Rightarrow> Inl e
      | Inr (Some w) \<Rightarrow> Inr (Some w)
      | Inr None \<Rightarrow>
          (case check_cols b [0, 1, 2] of
             Inl e \<Rightarrow> Inl e
           | Inr (Some w) \<Rightarrow> Inr (Some w)
           | Inr None \<Rightarrow> check_diagonals b))"

fun row_full :: "string list \<Rightarrow> bool" where
  "row_full [] = True"
| "row_full (cell # rest) = (if cell = '''' then False else row_full rest)"

fun is_board_full :: "string list list \<Rightarrow> bool" where
  "is_board_full [] = True"
| "is_board_full (row # rest) = (if row_full row then is_board_full rest else False)"

subsection \<open>make_move\<close>

text \<open>Every part of \<open>make_move\<close> returns the session state it leaves behind together with
  the exception it raised, if any: an exception ends the call, and the store keeps what
  was written before it.\<close>

text \<open>Lines 60 to 62: write the mark, append the move.\<close>

definition place_mark :: "int \<Rightarrow> int \<Rightarrow> 't \<Rightarrow> 't session_state \<Rightarrow> 't session_state \<times> error option" where
  "place_mark row col now st =
     (case set_cell (board st) row col (current_player st) of
        Inl e \<Rightarrow> (st, Some e)
      | Inr b' \<Rightarrow>
          (st\<lparr>board := b',
              move_history := move_history st @ [(row, col, current_player st, now)]\<rparr>, None))"

text \<open>Lines 64 to 69: the vanishing rule. \<open>pop(0)\<close> raises on an empty list.\<close>

definition handle_vanishing :: "'t session_state \<Rightarrow> 't session_state \<times> error option" where
  "handle_vanishing st =
     (if int (length (move_history st)) > vanish_after st * 2 then
        (case move_history st of
           [] \<Rightarrow> (st, Some IndexError)
         | (old_row, old_col, old_player, old_time) # rest \<Rightarrow>
             (case set_cell (board st) old_row old_col '''' of
                Inl e \<Rightarrow> (st\<lparr>move_history := rest\<rparr>, Some e)
              | Inr b' \<Rightarrow> (st\<lparr>move_history := rest, board := b'\<rparr>, None)))
      else (st, None))"

text \<open>Lines 71 to 81: winner, tie, or the other player's turn. \<open>if winner:\<close> is the
  truth value of an optional string: neither \<open>None\<close> nor the empty string.\<close>

definition check_for_winner :: "'t session_state \<Rightarrow> 't session_state \<times> error option" where
  "check_for_winner st =
     (case check_winner (board st) of
        Inl e \<Rightarrow> (st, Some e)
      | Inr w \<Rightarrow>
          if w \<noteq> None \<and> w \<noteq> Some '''' then (st\<lparr>winner := w, game_over := True\<rparr>, None)
          else if is_board_full (board st) then
            (st\<lparr>game_over := True, winner := Some ''Tie''\<rparr>, None)
          else
            (st\<lparr>current_player := (if current_player st = ''X'' then ''O'' else ''X'')\<rparr>, None))"

definition make_move :: "int \<Rightarrow> int \<Rightarrow> 't \<Rightarrow> 't session_state \<Rightarrow> 't session_state \<times> error option" where
  "make_move row col now st =
     (if game_over st then (st, None)
      else (case get_cell (board st) row col of
              Inl e \<Rightarrow> (st, Some e)
            | Inr cell \<Rightarrow>
                if cell \<noteq> '''' then (st, None)
                else (case place_mark row col now st of
                        (st1, Some e) \<Rightarrow> (st1, Some e)
                      | (st1, None) \<Rightarrow>
                          (case handle_vanishing st1 of
                             (st2, Some e) \<Rightarrow> (st2, Some e)
                           | (st2, None) \<Rightarrow> check_for_winner st2))))"

text \<open>A session: a list of clicks, each a call of \<open>make_move\<close> with the clock reading of
  that moment. A call that raises ends that run of the script; the store stays as the
  call left it and the next click works on it.\<close>

fun play :: "'t session_state \<Rightarrow> (int \<times> int \<times> 't) list \<Rightarrow> 't session_state" where
  "play st [] = st"
| "play st ((row, col, now) # clicks) = play (fst (make_move row col now st)) clicks"

section \<open>Vocabulary of the proofs\<close>

subsection \<open>Boards of three rows of three cells\<close>

text \<open>The board of every state the engine builds has three rows of three cells. On such
  a board an index from \<open>-3\<close> to \<open>2\<close> addresses a cell, and any other index raises.\<close>

definition wf_board :: "string list list \<Rightarrow> bool" where
  "wf_board b = (length b = 3 \<and> list_all (\<lambda>r. length r = 3) b)"

definition in_range3 :: "int \<Rightarrow> bool" where
  "in_range3 i = (- 3 \<le> i \<and> i < 3)"

definition norm_index :: "int \<Rightarrow> nat" where
  "norm_index i = nat (if i < 0 then i + 3 else i)"

definition cell_at :: "string list list \<Rightarrow> nat \<times> nat \<Rightarrow> string" where
  "cell_at b p = b ! fst p ! snd p"

definition put_at :: "string list list \<Rightarrow> nat \<times> nat \<Rightarrow> string \<Rightarrow> string list list" where
  "put_at b p v = b[fst p := (b ! fst p)[snd p := v]]"

definition all_cells :: "(nat \<times> nat) list" where
  "all_cells = [(0,0),(0,1),(0,2),(1,0),(1,1),(1,2),(2,0),(2,1),(2,2)]"

text \<open>The cell a recorded move addresses, and the mark it carries.\<close>

definition move_pos :: "int \<times> int \<times> string \<times> 't \<Rightarrow> nat \<times> nat" where
  "move_pos m = (norm_index (fst m), norm_index (fst (snd m)))"

definition move_player :: "int \<times> int \<times> string \<times> 't \<Rightarrow> string" where
  "move_player m = fst (snd (snd m))"

text \<open>The number of non-empty cells of a board.\<close>

definition count_nonempty :: "string list list \<Rightarrow> nat" where
  "count_nonempty b = length (filter (\<lambda>c. c \<noteq> '''') (concat b))"

subsection \<open>The winner, as the specification words it\<close>

text \<open>The eight lines in the fixed order: the three rows, the three columns, the main
  diagonal, the anti-diagonal. A line wins when its three cells are non-empty and
  identical; the winner is the mark of the first winning line.\<close>

definition winning_lines :: "((nat \<times> nat) \<times> (nat \<times> nat) \<times> (nat \<times> nat)) list" where
  "winning_lines =
     [((0,0),(0,1),(0,2)), ((1,0),(1,1),(1,2)), ((2,0),(2,1),(2,2)),
      ((0,0),(1,0),(2,0)), ((0,1),(1,1),(2,1)), ((0,2),(1,2),(2,2)),
      ((0,0),(1,1),(2,2)), ((0,2),(1,1),(2,0))]"

definition line_wins :: "string list list \<Rightarrow> (nat \<times> nat) \<times> (nat \<times> nat) \<times> (nat \<times> nat) \<Rightarrow> bool" where
  "line_wins b l =
     (case l of (p, q, r) \<Rightarrow>
        cell_at b p \<noteq> '''' \<and> cell_at b q \<noteq> '''' \<and> cell_at b r \<noteq> '''' \<and>
        cell_at b p = cell_at b q \<and> cell_at b q = cell_at b r)"

definition first_winner :: "string list list \<Rightarrow> string option" where
  "first_winner b =
     (case find (line_wins b) winning_lines of
        None \<Rightarrow> None
      | Some (p, q, r) \<Rightarrow> Some (cell_at b p))"

definition same3 :: "string \<Rightarrow> string \<Rightarrow> string \<Rightarrow> bool" where
  "same3 x y z = (x = y \<and> y = z \<and> z \<noteq> '''')"

subsection \<open>The invariant of the session\<close>

text \<open>The board and the history describe the same position: every recorded move
  addresses a cell of the board that holds its mark, no two recorded moves address the
  same cell, and every non-empty cell is addressed by a recorded move.\<close>

definition board_matches :: "'t session_state \<Rightarrow> bool" where
  "board_matches st =
     (wf_board (board st) \<and>
      (\<forall>m\<in>set (move_history st).
          in_range3 (fst m) \<and> in_range3 (fst (snd m)) \<and>
          (move_player m = ''X'' \<or> move_player m = ''O'') \<and>
          cell_at (board st) (move_pos m) = move_player m) \<and>
      distinct (map move_pos (move_history st)) \<and>
      (\<forall>p\<in>set all_cells. cell_at (board st) p \<noteq> '''' \<longrightarrow> p \<in> move_pos ` set (move_history st)))"

definition status_ok :: "'t session_state \<Rightarrow> bool" where
  "status_ok st =
     ((current_player st = ''X'' \<or> current_player st = ''O'') \<and>
      (winner st = None \<or> winner st = Some ''X'' \<or> winner st = Some ''O'' \<or>
         winner st = Some ''Tie'') \<and>
      (game_over st \<longleftrightarrow> winner st \<noteq> None) \<and>
      (winner st = Some ''Tie'' \<longrightarrow> is_board_full (board st)))"

definition consistent :: "'t session_state \<Rightarrow> bool" where
  "consistent st = (board_matches st \<and> status_ok st)"

text \<open>A full board without a winning line is recorded as a tie.\<close>

definition tie_recorded :: "'t session_state \<Rightarrow> bool" where
  "tie_recorded st =
     (is_board_full (board st) \<and> first_winner (board st) = None \<longrightarrow> winner st = Some ''Tie'')"

text \<open>What lines 60 to 62 and lines 64 to 69 leave behind when no index is out of
  range.\<close>

definition placed :: "int \<Rightarrow> int \<Rightarrow> 't \<Rightarrow> 't session_state \<Rightarrow> 't session_state" where
  "placed r c t st =
     st\<lparr>board := put_at (board st) (norm_index r, norm_index c) (current_player st),
        move_history := move_history st @ [(r, c, current_player st, t)]\<rparr>"

definition evicted :: "'t session_state \<Rightarrow> 't session_state" where
  "evicted st =
     (if int (length (move_history st)) > vanish_after st * 2 then
        (case move_history st of
           [] \<Rightarrow> st
         | m # rest \<Rightarrow> st\<lparr>move_history := rest, board := put_at (board st) (move_pos m) ''''\<rparr>)
      else st)"

subsection \<open>Concrete sessions\<close>

text \<open>A finished game left in the store (scenario A of the specification after its fifth
  move), and nine clicks on the nine cells, marks alternating, that never line up three
  marks.\<close>

definition finished_state :: "nat session_state" where
  "finished_state =
     \<lparr>board = [[''X'', ''X'', ''X''], [''O'', ''O'', ''''], ['''', '''', '''']],
      move_history = [(0, 0, ''X'', 1), (1, 1, ''O'', 2), (0, 1, ''X'', 3), (1, 0, ''O'', 4),
                      (0, 2, ''X'', 5)],
      current_player = ''X'', game_over = True, winner = Some ''X'', vanish_after = 3\<rparr>"

definition nine_clicks :: "(int \<times> int \<times> nat) list" where
  "nine_clicks =
     [(0, 0, 1), (1, 1, 2), (0, 2, 3), (0, 1, 4), (2, 1, 5), (1, 0, 6), (1, 2, 7), (2, 2, 8),
      (2, 0, 9)]"

text \<open>States on the way of scenario A, of scenario B and of a game played to a full
  board with vanish limit 5.\<close>

definition four_moves :: "nat session_state" where
  "four_moves = play (new_game 3 finished_state) [(0, 0, 1), (1, 1, 2), (0, 1, 3), (1, 0, 4)]"

definition five_moves :: "nat session_state" where
  "five_moves =
     play (new_game 2 finished_state) [(0, 0, 1), (1, 1, 2), (0, 1, 3), (1, 0, 4), (2, 2, 5)]"

definition eight_moves :: "nat session_state" where
  "eight_moves = play (new_game 5 finished_state) (butlast nine_clicks)"

section \<open>Lemmas\<close>

lemma wf_board_cases:
  assumes "wf_board b"
  obtains a0 a1 a2 b0 b1 b2 c0 c1 c2 where "b = [[a0, a1, a2], [b0, b1, b2], [c0, c1, c2]]"
proof -
  from assms have l: "length b = 3" and r: "\<forall>r\<in>set b. length r = 3"
    by (simp_all add: wf_board_def list_all_iff)
  from l obtain x y z where b: "b = [x, y, z]"
    by (auto simp: length_Suc_conv numeral_3_eq_3)
  with r have "length x = 3" "length y = 3" "length z = 3" by simp_all
  then obtain a0 a1 a2 b0 b1 b2 c0 c1 c2 where
    "x = [a0, a1, a2]" "y = [b0, b1, b2]" "z = [c0, c1, c2]"
    by (auto simp: length_Suc_conv numeral_3_eq_3)
  with b show thesis using that by blast
qed

lemma py_index_len3:
  "length xs = 3 \<Longrightarrow> in_range3 i \<Longrightarrow> py_index xs i = Inr (xs ! norm_index i)"
  by (auto simp: py_index_def in_range3_def norm_index_def)

lemma py_index_len3_out:
  "length xs = 3 \<Longrightarrow> \<not> in_range3 i \<Longrightarrow> py_index xs i = Inl IndexError"
  by (auto simp: py_index_def in_range3_def)

lemma py_setitem_len3:
  "length xs = 3 \<Longrightarrow> in_range3 i \<Longrightarrow> py_setitem xs i v = Inr (xs[norm_index i := v])"
  by (auto simp: py_setitem_def in_range3_def norm_index_def)

lemma norm_index_less: "in_range3 i \<Longrightarrow> norm_index i < 3"
  by (auto simp: in_range3_def norm_index_def)

lemma wf_board_row: "wf_board b \<Longrightarrow> i < 3 \<Longrightarrow> length (b ! i) = 3"
  by (auto simp: wf_board_def list_all_iff)

lemma get_cell_wf:
  "wf_board b \<Longrightarrow> in_range3 r \<Longrightarrow> in_range3 c \<Longrightarrow>
   get_cell b r c = Inr (cell_at b (norm_index r, norm_index c))"
  by (simp add: get_cell_def cell_at_def py_index_len3 wf_board_row norm_index_less wf_board_def)

lemma get_cell_wf_out:
  "wf_board b \<Longrightarrow> \<not> (in_range3 r \<and> in_range3 c) \<Longrightarrow> get_cell b r c = Inl IndexError"
  by (cases "in_range3 r")
     (auto simp add: get_cell_def py_index_len3 py_index_len3_out wf_board_row norm_index_less wf_board_def)

lemma set_cell_wf:
  "wf_board b \<Longrightarrow> in_range3 r \<Longrightarrow> in_range3 c \<Longrightarrow>
   set_cell b r c v = Inr (put_at b (norm_index r, norm_index c) v)"
  by (simp add: set_cell_def put_at_def py_index_len3 py_setitem_len3 wf_board_row norm_index_less wf_board_def)

lemma all_cells_iff: "p \<in> set all_cells \<longleftrightarrow> fst p < 3 \<and> snd p < 3"
proof -
  have "\<And>n::nat. n < 3 \<longleftrightarrow> n = 0 \<or> n = 1 \<or> n = 2" by auto
  then show ?thesis by (cases p) (auto simp: all_cells_def)
qed

lemma wf_put_at: "wf_board b \<Longrightarrow> wf_board (put_at b p v)"
proof (cases "fst p < length b")
  case True
  assume "wf_board b"
  with True show ?thesis
    by (auto simp: wf_board_def put_at_def list_all_iff dest!: set_update_subset_insert[THEN subsetD])
next
  case False
  assume "wf_board b"
  with False show ?thesis by (simp add: put_at_def list_update_beyond)
qed

lemma cell_at_put_at:
  "wf_board b \<Longrightarrow> p \<in> set all_cells \<Longrightarrow> q \<in> set all_cells \<Longrightarrow>
   cell_at (put_at b p v) q = (if p = q then v else cell_at b q)"
  by (cases p; cases q) (auto simp: cell_at_def put_at_def all_cells_iff wf_board_def list_all_iff nth_list_update)

lemma concat_wf: "wf_board b \<Longrightarrow> concat b = map (cell_at b) all_cells"
  by (erule wf_board_cases) (simp add: all_cells_def cell_at_def)

lemma distinct_all_cells: "distinct all_cells"
  by (simp add: all_cells_def)

lemma row_full_iff: "row_full r \<longleftrightarrow> '''' \<notin> set r"
  by (induction r) auto

lemma is_board_full_iff: "is_board_full b \<longleftrightarrow> '''' \<notin> set (concat b)"
  by (induction b) (auto simp: row_full_iff)

lemma chain3_Inr [simp]:
  "chain3 (Inr x) (Inr y) (Inr z) = Inr (same3 x y z)"
  by (auto simp: chain3_def same3_def)

lemma line_wins_same3:
  "line_wins b (p, q, r) = same3 (cell_at b p) (cell_at b q) (cell_at b r)"
  by (auto simp: line_wins_def same3_def)

lemma return_mark_Inr [simp]: "return_mark (Inr x) = Inr (Some x)"
  by (simp add: return_mark_def)

lemma py_index_3 [simp]:
  "py_index [x, y, z] 0 = Inr x" "py_index [x, y, z] 1 = Inr y" "py_index [x, y, z] 2 = Inr z"
  by (simp_all add: py_index_def)

lemma get_cell_3 [simp]:
  "get_cell [r0, r1, r2] 0 c = py_index r0 c"
  "get_cell [r0, r1, r2] 1 c = py_index r1 c"
  "get_cell [r0, r1, r2] 2 c = py_index r2 c"
  by (simp_all add: get_cell_def)

lemma check_winner_refines:
  assumes "wf_board b"
  shows "check_winner b = Inr (first_winner b)"
proof -
  from assms obtain a0 a1 a2 b0 b1 b2 c0 c1 c2 where
    b: "b = [[a0, a1, a2], [b0, b1, b2], [c0, c1, c2]]"
    by (rule wf_board_cases)
  show ?thesis
    unfolding b check_winner_def check_diagonals_def first_winner_def winning_lines_def
    by (simp add: line_wins_same3 cell_at_def)
qed

lemma find_SomeD: "find P xs = Some x \<Longrightarrow> x \<in> set xs \<and> P x"
  by (induction xs) (auto split: if_splits)

lemma first_winner_nonempty: "first_winner b = Some w \<Longrightarrow> w \<noteq> ''''"
  by (auto simp: first_winner_def line_wins_def split: option.splits dest!: find_SomeD)

lemma first_winner_cell:
  "first_winner b = Some w \<Longrightarrow> \<exists>p\<in>set all_cells. cell_at b p = w"
proof -
  assume "first_winner b = Some w"
  then obtain p q r where "(p, q, r) \<in> set winning_lines" and w: "w = cell_at b p"
    by (auto simp: first_winner_def split: option.splits dest!: find_SomeD)
  then have "p \<in> set all_cells"
    by (auto simp: winning_lines_def all_cells_def)
  with w show ?thesis by blast
qed

lemma move_pos_cell: "in_range3 (fst m) \<Longrightarrow> in_range3 (fst (snd m)) \<Longrightarrow> move_pos m \<in> set all_cells"
  by (simp add: all_cells_iff move_pos_def norm_index_less)

lemma place_matches:
  assumes bm: "board_matches st"
    and r: "in_range3 r" and c: "in_range3 c"
    and e: "cell_at (board st) (norm_index r, norm_index c) = ''''"
    and p: "p = ''X'' \<or> p = ''O''"
  shows "board_matches (st\<lparr>board := put_at (board st) (norm_index r, norm_index c) p,
                          move_history := move_history st @ [(r, c, p, t)]\<rparr>)"
proof -
  let ?q = "(norm_index r, norm_index c)"
  let ?b = "board st" and ?h = "move_history st"
  have wf: "wf_board ?b" using bm by (simp add: board_matches_def)
  have q: "?q \<in> set all_cells" using r c by (simp add: all_cells_iff norm_index_less)
  have pne: "p \<noteq> ''''" using p by auto
  have old: "\<forall>m\<in>set ?h. move_pos m \<in> set all_cells \<and> move_pos m \<noteq> ?q"
  proof
    fix m assume m: "m \<in> set ?h"
    with bm have mc: "move_pos m \<in> set all_cells"
      by (simp add: board_matches_def move_pos_cell)
    from m bm have "cell_at ?b (move_pos m) \<noteq> ''''"
      by (auto simp: board_matches_def)
    with e have "move_pos m \<noteq> ?q" by auto
    with mc show "move_pos m \<in> set all_cells \<and> move_pos m \<noteq> ?q" by simp
  qed
  have 1: "wf_board (put_at ?b ?q p)" using wf by (rule wf_put_at)
  have 2: "\<forall>m\<in>set (?h @ [(r, c, p, t)]).
          in_range3 (fst m) \<and> in_range3 (fst (snd m)) \<and>
          (move_player m = ''X'' \<or> move_player m = ''O'') \<and>
          cell_at (put_at ?b ?q p) (move_pos m) = move_player m"
  proof
    fix m assume "m \<in> set (?h @ [(r, c, p, t)])"
    then consider "m \<in> set ?h" | "m = (r, c, p, t)" by auto
    then show "in_range3 (fst m) \<and> in_range3 (fst (snd m)) \<and>
          (move_player m = ''X'' \<or> move_player m = ''O'') \<and>
          cell_at (put_at ?b ?q p) (move_pos m) = move_player m"
    proof cases
      case 1
      with old have "move_pos m \<in> set all_cells" "move_pos m \<noteq> ?q" by auto
      then have "cell_at (put_at ?b ?q p) (move_pos m) = cell_at ?b (move_pos m)"
        using wf q by (auto simp: cell_at_put_at)
      with 1 bm show ?thesis by (simp add: board_matches_def)
    next
      case 2
      then have "move_pos m = ?q" by (simp add: move_pos_def)
      with 2 r c p wf q show ?thesis
        by (simp add: cell_at_put_at move_player_def)
    qed
  qed
  have 3: "distinct (map move_pos (?h @ [(r, c, p, t)]))"
  proof -
    have "move_pos (r, c, p, t) = ?q" by (simp add: move_pos_def)
    moreover have "?q \<notin> move_pos ` set ?h" using old by auto
    moreover have "distinct (map move_pos ?h)" using bm by (simp add: board_matches_def)
    ultimately show ?thesis by simp
  qed
  have 4: "\<forall>x\<in>set all_cells. cell_at (put_at ?b ?q p) x \<noteq> '''' \<longrightarrow>
             x \<in> move_pos ` set (?h @ [(r, c, p, t)])"
  proof (intro ballI impI)
    fix x assume x: "x \<in> set all_cells" and ne: "cell_at (put_at ?b ?q p) x \<noteq> ''''"
    show "x \<in> move_pos ` set (?h @ [(r, c, p, t)])"
    proof (cases "x = ?q")
      case True
      then have "x = move_pos (r, c, p, t)" by (simp add: move_pos_def)
      then show ?thesis by simp
    next
      case False
      with ne wf q x have "cell_at ?b x \<noteq> ''''" by (auto simp: cell_at_put_at)
      with bm x have "x \<in> move_pos ` set ?h" by (simp add: board_matches_def)
      then show ?thesis by auto
    qed
  qed
  from 1 2 3 4 show ?thesis unfolding board_matches_def by simp
qed

lemma evict_matches:
  assumes bm: "board_matches st" and h: "move_history st = m # rest"
  shows "board_matches (st\<lparr>move_history := rest, board := put_at (board st) (move_pos m) ''''\<rparr>)"
proof -
  let ?b = "board st"
  let ?q = "move_pos m"
  have wf: "wf_board ?b" using bm by (simp add: board_matches_def)
  have q: "?q \<in> set all_cells" using bm h by (simp add: board_matches_def move_pos_cell)
  have d: "?q \<notin> move_pos ` set rest" "distinct (map move_pos rest)"
    using bm h by (simp_all add: board_matches_def)
  have cells: "\<forall>x\<in>set rest. move_pos x \<in> set all_cells"
    using bm h by (simp add: board_matches_def move_pos_cell)
  have 1: "wf_board (put_at ?b ?q '''')" using wf by (rule wf_put_at)
  have 2: "\<forall>x\<in>set rest.
          in_range3 (fst x) \<and> in_range3 (fst (snd x)) \<and>
          (move_player x = ''X'' \<or> move_player x = ''O'') \<and>
          cell_at (put_at ?b ?q '''') (move_pos x) = move_player x"
  proof
    fix x assume x: "x \<in> set rest"
    then have "move_pos x \<in> move_pos ` set rest" by (rule imageI)
    with d have "move_pos x \<noteq> ?q" by metis
    moreover from x cells have "move_pos x \<in> set all_cells" by simp
    ultimately have "cell_at (put_at ?b ?q '''') (move_pos x) = cell_at ?b (move_pos x)"
      using wf q by (auto simp: cell_at_put_at)
    with x bm h show "in_range3 (fst x) \<and> in_range3 (fst (snd x)) \<and>
          (move_player x = ''X'' \<or> move_player x = ''O'') \<and>
          cell_at (put_at ?b ?q '''') (move_pos x) = move_player x"
      by (simp add: board_matches_def)
  qed
  have 4: "\<forall>x\<in>set all_cells. cell_at (put_at ?b ?q '''') x \<noteq> '''' \<longrightarrow> x \<in> move_pos ` set rest"
  proof (intro ballI impI)
    fix x assume x: "x \<in> set all_cells" and ne: "cell_at (put_at ?b ?q '''') x \<noteq> ''''"
    then have xq: "x \<noteq> ?q" using wf q by (auto simp: cell_at_put_at)
    with ne wf q x have "cell_at ?b x \<noteq> ''''" by (auto simp: cell_at_put_at)
    with bm x h have "x \<in> move_pos ` set (m # rest)" by (simp add: board_matches_def)
    with xq show "x \<in> move_pos ` set rest" by auto
  qed
  from 1 2 d 4 show ?thesis unfolding board_matches_def by simp
qed

lemma count_nonempty_matches:
  assumes bm: "board_matches st"
  shows "count_nonempty (board st) = length (move_history st)"
proof -
  let ?b = "board st" and ?h = "move_history st"
  have wf: "wf_board ?b" using bm by (simp add: board_matches_def)
  have "count_nonempty ?b = length (filter (\<lambda>p. cell_at ?b p \<noteq> '''') all_cells)"
    by (simp add: count_nonempty_def concat_wf[OF wf] filter_map comp_def)
  also have "\<dots> = card (set (filter (\<lambda>p. cell_at ?b p \<noteq> '''') all_cells))"
    by (rule distinct_card[symmetric]) (simp add: distinct_all_cells)
  also have "set (filter (\<lambda>p. cell_at ?b p \<noteq> '''') all_cells) = move_pos ` set ?h"
  proof (intro equalityI subsetI)
    fix x assume "x \<in> set (filter (\<lambda>p. cell_at ?b p \<noteq> '''') all_cells)"
    with bm show "x \<in> move_pos ` set ?h" by (simp add: board_matches_def)
  next
    fix x assume "x \<in> move_pos ` set ?h"
    then obtain m where m: "m \<in> set ?h" "x = move_pos m" by auto
    with bm have "x \<in> set all_cells" by (simp add: board_matches_def move_pos_cell)
    moreover from m bm have "cell_at ?b x \<noteq> ''''" by (auto simp: board_matches_def)
    ultimately show "x \<in> set (filter (\<lambda>p. cell_at ?b p \<noteq> '''') all_cells)" by simp
  qed
  also have "card (move_pos ` set ?h) = length ?h"
  proof -
    have "distinct (map move_pos ?h)" using bm by (simp add: board_matches_def)
    then have "card (set (map move_pos ?h)) = length (map move_pos ?h)" by (rule distinct_card)
    then show ?thesis by simp
  qed
  finally show ?thesis .
qed

lemma handle_vanishing_matches:
  assumes "board_matches st"
  shows "handle_vanishing st =
     (if int (length (move_history st)) > vanish_after st * 2 then
        (case move_history st of
           [] \<Rightarrow> (st, Some IndexError)
         | m # rest \<Rightarrow> (st\<lparr>move_history := rest, board := put_at (board st) (move_pos m) ''''\<rparr>, None))
      else (st, None))"
proof (cases "move_history st")
  case Nil
  then show ?thesis by (simp add: handle_vanishing_def)
next
  case (Cons m rest)
  obtain r c p t where m: "m = (r, c, p, t)" by (cases m)
  with Cons assms have "in_range3 r" "in_range3 c" "wf_board (board st)"
    by (simp_all add: board_matches_def)
  then have "set_cell (board st) r c '''' = Inr (put_at (board st) (move_pos m) '''')"
    by (simp add: set_cell_wf m move_pos_def)
  with Cons m show ?thesis by (simp add: handle_vanishing_def)
qed

lemma check_for_winner_wf:
  assumes "wf_board (board st)"
  shows "check_for_winner st =
     (case first_winner (board st) of
        Some w \<Rightarrow> (st\<lparr>winner := Some w, game_over := True\<rparr>, None)
      | None \<Rightarrow>
          if is_board_full (board st) then (st\<lparr>game_over := True, winner := Some ''Tie''\<rparr>, None)
          else (st\<lparr>current_player := (if current_player st = ''X'' then ''O'' else ''X'')\<rparr>, None))"
  using first_winner_nonempty[of "board st"]
  by (simp add: check_for_winner_def check_winner_refines[OF assms] split: option.split)

lemma place_mark_wf:
  assumes "wf_board (board st)" "in_range3 r" "in_range3 c"
  shows "place_mark r c t st =
     (st\<lparr>board := put_at (board st) (norm_index r, norm_index c) (current_player st),
         move_history := move_history st @ [(r, c, current_player st, t)]\<rparr>, None)"
  using assms by (simp add: place_mark_def set_cell_wf)

lemma make_move_guard:
  assumes "wf_board (board st)"
  shows "game_over st \<or> \<not> (in_range3 r \<and> in_range3 c) \<or>
         cell_at (board st) (norm_index r, norm_index c) \<noteq> '''' \<Longrightarrow>
         make_move r c t st =
           (st, if \<not> game_over st \<and> \<not> (in_range3 r \<and> in_range3 c) then Some IndexError else None)"
  using assms
  by (cases "in_range3 r \<and> in_range3 c")
     (auto simp: make_move_def get_cell_wf get_cell_wf_out)

lemma make_move_placed:
  assumes "wf_board (board st)" "\<not> game_over st" "in_range3 r" "in_range3 c"
    "cell_at (board st) (norm_index r, norm_index c) = ''''"
  shows "make_move r c t st =
     (case handle_vanishing (fst (place_mark r c t st)) of
        (st2, Some e) \<Rightarrow> (st2, Some e)
      | (st2, None) \<Rightarrow> check_for_winner st2)"
  using assms by (simp add: make_move_def get_cell_wf place_mark_wf)

lemma check_for_winner_fields:
  "board (fst (check_for_winner st)) = board st"
  "move_history (fst (check_for_winner st)) = move_history st"
  "vanish_after (fst (check_for_winner st)) = vanish_after st"
  by (auto simp: check_for_winner_def split: sum.splits)

lemma board_matches_cong:
  "board st' = board st \<Longrightarrow> move_history st' = move_history st \<Longrightarrow>
   board_matches st' = board_matches st"
  by (simp add: board_matches_def)

lemma matches_cells_marks:
  assumes "board_matches st" "p \<in> set all_cells"
  shows "cell_at (board st) p = '''' \<or> cell_at (board st) p = ''X'' \<or> cell_at (board st) p = ''O''"
proof (cases "cell_at (board st) p = ''''")
  case False
  with assms obtain m where "m \<in> set (move_history st)" "p = move_pos m"
    by (auto simp: board_matches_def)
  with assms show ?thesis by (auto simp: board_matches_def)
qed simp

lemma check_for_winner_consistent:
  assumes bm: "board_matches st" and so: "status_ok st" and go: "\<not> game_over st"
  shows "consistent (fst (check_for_winner st))"
proof -
  have wf: "wf_board (board st)" using bm by (simp add: board_matches_def)
  have bm': "board_matches (fst (check_for_winner st))"
    using bm by (simp add: board_matches_def check_for_winner_fields)
  have "status_ok (fst (check_for_winner st))"
  proof (cases "first_winner (board st)")
    case None
    with so show ?thesis
      by (auto simp: check_for_winner_wf[OF wf] status_ok_def)
  next
    case (Some w)
    then obtain p where "p \<in> set all_cells" "cell_at (board st) p = w"
      by (auto dest: first_winner_cell)
    moreover from Some have "w \<noteq> ''''" by (rule first_winner_nonempty)
    ultimately have "w = ''X'' \<or> w = ''O''"
      using matches_cells_marks[OF bm, of p] by auto
    with Some so show ?thesis
      by (auto simp: check_for_winner_wf[OF wf] status_ok_def)
  qed
  with bm' show ?thesis by (simp add: consistent_def)
qed

lemma make_move_consistent:
  assumes "consistent st"
  shows "consistent (fst (make_move r c t st))"
proof -
  from assms have bm: "board_matches st" and so: "status_ok st"
    by (simp_all add: consistent_def)
  have wf: "wf_board (board st)" using bm by (simp add: board_matches_def)
  show ?thesis
  proof (cases "game_over st \<or> \<not> (in_range3 r \<and> in_range3 c) \<or>
         cell_at (board st) (norm_index r, norm_index c) \<noteq> ''''")
    case True
    then show ?thesis using assms by (simp add: make_move_guard[OF wf])
  next
    case False
    then have go: "\<not> game_over st" and r: "in_range3 r" and c: "in_range3 c"
      and e: "cell_at (board st) (norm_index r, norm_index c) = ''''" by auto
    let ?st1 = "fst (place_mark r c t st)"
    have st1: "?st1 = st\<lparr>board := put_at (board st) (norm_index r, norm_index c) (current_player st),
         move_history := move_history st @ [(r, c, current_player st, t)]\<rparr>"
      by (simp add: place_mark_wf[OF wf r c])
    have cp: "current_player st = ''X'' \<or> current_player st = ''O''"
      using so by (simp add: status_ok_def)
    have bm1: "board_matches ?st1"
      unfolding st1 by (rule place_matches[OF bm r c e cp])
    obtain st2 where hv: "handle_vanishing ?st1 = (st2, None)" and bm2: "board_matches st2"
      and same: "current_player st2 = current_player st" "winner st2 = winner st"
         "game_over st2 = game_over st"
    proof (cases "int (length (move_history ?st1)) > vanish_after ?st1 * 2")
      case True
      obtain m rest where mh: "move_history ?st1 = m # rest"
        by (cases "move_history ?st1") (simp_all add: st1)
      let ?st2 = "?st1\<lparr>move_history := rest, board := put_at (board ?st1) (move_pos m) ''''\<rparr>"
      have "handle_vanishing ?st1 = (?st2, None)"
        using True mh by (simp add: handle_vanishing_matches[OF bm1])
      moreover have "board_matches ?st2" by (rule evict_matches[OF bm1 mh])
      moreover have "current_player ?st2 = current_player st" "winner ?st2 = winner st"
         "game_over ?st2 = game_over st" by (simp_all add: st1)
      ultimately show thesis by (rule that)
    next
      case False
      then have "handle_vanishing ?st1 = (?st1, None)"
        by (simp add: handle_vanishing_matches[OF bm1])
      moreover note bm1
      moreover have "current_player ?st1 = current_player st" "winner ?st1 = winner st"
         "game_over ?st1 = game_over st" by (simp_all add: st1)
      ultimately show thesis by (rule that)
    qed
    have so2: "status_ok st2"
      using so same go by (auto simp: status_ok_def)
    have "make_move r c t st = check_for_winner st2"
      by (simp add: make_move_placed[OF wf go r c e] hv)
    moreover have "consistent (fst (check_for_winner st2))"
      using bm2 so2 same go by (intro check_for_winner_consistent) simp_all
    ultimately show ?thesis by simp
  qed
qed

lemma empty_board_wf: "wf_board empty_board"
  by (simp add: wf_board_def empty_board_def)

lemma empty_board_cells: "p \<in> set all_cells \<Longrightarrow> cell_at empty_board p = ''''"
  by (auto simp: all_cells_def cell_at_def empty_board_def)

lemma new_game_consistent: "consistent (new_game v st)"
  by (simp add: consistent_def board_matches_def status_ok_def new_game_def reset_game_def
      empty_board_wf empty_board_cells)

lemma play_consistent: "consistent st \<Longrightarrow> consistent (play st clicks)"
  by (induction st clicks rule: play.induct) (simp_all add: make_move_consistent)

lemma get_cell_Inr_wf:
  assumes "wf_board b" "get_cell b r c = Inr x"
  shows "in_range3 r \<and> in_range3 c \<and> cell_at b (norm_index r, norm_index c) = x"
proof (cases "in_range3 r \<and> in_range3 c")
  case True
  with assms show ?thesis by (simp add: get_cell_wf)
next
  case False
  with assms show ?thesis by (simp add: get_cell_wf_out)
qed

lemma place_mark_placed:
  "wf_board (board st) \<Longrightarrow> in_range3 r \<Longrightarrow> in_range3 c \<Longrightarrow>
   place_mark r c t st = (placed r c t st, None)"
  by (simp add: place_mark_wf placed_def)

lemma placed_matches:
  assumes "consistent st" "in_range3 r" "in_range3 c"
    "cell_at (board st) (norm_index r, norm_index c) = ''''"
  shows "board_matches (placed r c t st)"
  unfolding placed_def using assms
  by (intro place_matches) (simp_all add: consistent_def status_ok_def)

lemma handle_vanishing_evicted:
  assumes "board_matches st" "move_history st \<noteq> []"
  shows "handle_vanishing st = (evicted st, None)"
  using assms by (cases "move_history st") (simp_all add: handle_vanishing_matches evicted_def)

lemma evicted_matches:
  assumes "board_matches st"
  shows "board_matches (evicted st)"
proof (cases "move_history st")
  case Nil
  with assms show ?thesis by (simp add: evicted_def)
next
  case (Cons m rest)
  with assms evict_matches[OF assms Cons] show ?thesis by (simp add: evicted_def)
qed

lemma make_move_success:
  assumes con: "consistent st" and go: "\<not> game_over st"
    and gc: "get_cell (board st) r c = Inr ''''"
  shows "place_mark r c t st = (placed r c t st, None)"
    and "handle_vanishing (placed r c t st) = (evicted (placed r c t st), None)"
    and "make_move r c t st = check_for_winner (evicted (placed r c t st))"
    and "board_matches (evicted (placed r c t st))"
proof -
  have wf: "wf_board (board st)" using con by (simp add: consistent_def board_matches_def)
  from get_cell_Inr_wf[OF wf gc] have r: "in_range3 r" and c: "in_range3 c"
    and e: "cell_at (board st) (norm_index r, norm_index c) = ''''" by simp_all
  show 1: "place_mark r c t st = (placed r c t st, None)"
    by (rule place_mark_placed[OF wf r c])
  have bm1: "board_matches (placed r c t st)" by (rule placed_matches[OF con r c e])
  have ne: "move_history (placed r c t st) \<noteq> []" by (simp add: placed_def)
  show 2: "handle_vanishing (placed r c t st) = (evicted (placed r c t st), None)"
    by (rule handle_vanishing_evicted[OF bm1 ne])
  show "make_move r c t st = check_for_winner (evicted (placed r c t st))"
    by (simp add: make_move_placed[OF wf go r c e] 1 2)
  show "board_matches (evicted (placed r c t st))" by (rule evicted_matches[OF bm1])
qed

lemma make_move_vanish_after: "vanish_after (fst (make_move r c t st)) = vanish_after st"
  by (auto simp: make_move_def place_mark_def handle_vanishing_def check_for_winner_def
      split: sum.splits list.splits option.splits prod.splits)

lemma play_vanish_after: "vanish_after (play st clicks) = vanish_after st"
  by (induction st clicks rule: play.induct) (simp_all add: make_move_vanish_after)

lemma evicted_length:
  "int (length (move_history st)) \<le> vanish_after st * 2 + 1 \<Longrightarrow>
   int (length (move_history (evicted st))) \<le> vanish_after st * 2"
  by (cases "move_history st") (auto simp: evicted_def)

lemma make_move_length:
  assumes con: "consistent st" and len: "int (length (move_history st)) \<le> vanish_after st * 2"
  shows "int (length (move_history (fst (make_move r c t st)))) \<le> vanish_after st * 2"
proof -
  have wf: "wf_board (board st)" using con by (simp add: consistent_def board_matches_def)
  show ?thesis
  proof (cases "game_over st \<or> \<not> (in_range3 r \<and> in_range3 c) \<or>
         cell_at (board st) (norm_index r, norm_index c) \<noteq> ''''")
    case True
    then show ?thesis using len by (simp add: make_move_guard[OF wf])
  next
    case False
    then have go: "\<not> game_over st" and gc: "get_cell (board st) r c = Inr ''''"
      using wf by (simp_all add: get_cell_wf)
    have "int (length (move_history (placed r c t st))) \<le> vanish_after (placed r c t st) * 2 + 1"
      using len by (simp add: placed_def)
    then have "int (length (move_history (evicted (placed r c t st))))
        \<le> vanish_after (placed r c t st) * 2" by (rule evicted_length)
    then show ?thesis
      by (simp add: make_move_success(3)[OF con go gc] check_for_winner_fields placed_def)
  qed
qed

lemma play_length:
  "consistent st \<Longrightarrow> int (length (move_history st)) \<le> vanish_after st * 2 \<Longrightarrow>
   int (length (move_history (play st clicks))) \<le> vanish_after st * 2"
proof (induction st clicks rule: play.induct)
  case (1 st)
  then show ?case by simp
next
  case (2 st row col now clicks)
  have "int (length (move_history (play (fst (make_move row col now st)) clicks)))
        \<le> vanish_after (fst (make_move row col now st)) * 2"
    using 2 by (intro 2(1) make_move_consistent) (simp_all add: make_move_length make_move_vanish_after)
  then show ?case by (simp add: make_move_vanish_after)
qed

lemma new_game_record:
  "new_game v st = \<lparr>board = [['''', '''', ''''], ['''', '''', ''''], ['''', '''', '''']],
      move_history = [], current_player = ''X'', game_over = False, winner = None,
      vanish_after = v\<rparr>"
  by (cases st) (simp add: new_game_def reset_game_def empty_board_def)

lemma new_game_length:
  "0 \<le> v \<Longrightarrow> int (length (move_history (new_game v st :: 't session_state))) \<le> vanish_after (new_game v st :: 't session_state) * 2"
  by (simp add: new_game_record)

lemma chain3_TrueD:
  "chain3 a b c = Inr True \<Longrightarrow> \<exists>x. a = Inr x \<and> x \<noteq> ''''"
  by (auto simp: chain3_def split: sum.splits if_splits)

lemma chain3_return_nonempty:
  "chain3 a b c = Inr True \<Longrightarrow> return_mark a = Inr (Some w) \<Longrightarrow> w \<noteq> ''''"
  by (auto dest!: chain3_TrueD)

lemma check_rows_nonempty: "check_rows b = Inr (Some w) \<Longrightarrow> w \<noteq> ''''"
  by (induction b) (auto split: sum.splits if_splits dest: chain3_return_nonempty)

lemma check_cols_nonempty: "check_cols b cols = Inr (Some w) \<Longrightarrow> w \<noteq> ''''"
  by (induction cols) (auto split: sum.splits if_splits dest: chain3_return_nonempty)

lemma check_diagonals_nonempty: "check_diagonals b = Inr (Some w) \<Longrightarrow> w \<noteq> ''''"
  by (auto simp: check_diagonals_def split: sum.splits if_splits dest: chain3_return_nonempty)

lemma check_winner_nonempty: "check_winner b = Inr (Some w) \<Longrightarrow> w \<noteq> ''''"
  by (auto simp: check_winner_def simp del: check_cols.simps check_rows.simps
      split: sum.splits option.splits
      dest: check_rows_nonempty check_cols_nonempty check_diagonals_nonempty)

lemma make_move_steps:
  assumes "\<not> game_over st" "get_cell (board st) row col = Inr ''''"
    "place_mark row col now st = (st1, None)" "handle_vanishing st1 = (st2, None)"
  shows "make_move row col now st = check_for_winner st2"
  using assms by (simp add: make_move_def)

lemma place_mark_player:
  "place_mark row col now st = (st1, e) \<Longrightarrow> current_player st1 = current_player st"
  by (auto simp: place_mark_def split: sum.splits)

lemma handle_vanishing_player:
  "handle_vanishing st = (st2, e) \<Longrightarrow> current_player st2 = current_player st"
  by (auto simp: handle_vanishing_def split: sum.splits list.splits if_splits)

lemma check_for_winner_in_progress:
  assumes "check_for_winner st = (st', None)" "\<not> game_over st'"
  shows "current_player st' = (if current_player st = ''X'' then ''O'' else ''X'')"
  using assms by (auto simp: check_for_winner_def split: sum.splits if_splits)

lemma make_move_in_progress:
  assumes go: "\<not> game_over st" and gc: "get_cell (board st) row col = Inr ''''"
    and mm: "make_move row col now st = (st', None)" and go': "\<not> game_over st'"
  shows "current_player st' = (if current_player st = ''X'' then ''O'' else ''X'')"
proof -
  obtain st1 e1 where pm: "place_mark row col now st = (st1, e1)" by (cases "place_mark row col now st")
  obtain st2 e2 where hv: "handle_vanishing st1 = (st2, e2)" by (cases "handle_vanishing st1")
  from mm go gc pm have e1: "e1 = None"
    by (cases e1) (simp_all add: make_move_def)
  from mm go gc pm hv e1 have e2: "e2 = None"
    by (cases e2) (simp_all add: make_move_def)
  from mm have "check_for_winner st2 = (st', None)"
    using make_move_steps[OF go gc pm[unfolded e1] hv[unfolded e2]] by simp
  from check_for_winner_in_progress[OF this go']
  show ?thesis
    using place_mark_player[OF pm] handle_vanishing_player[OF hv] by simp
qed

lemma play_new_game_consistent: "consistent (play (new_game v prior) clicks)"
  by (rule play_consistent[OF new_game_consistent])

lemma check_for_winner_no_error:
  "wf_board (board st) \<Longrightarrow> snd (check_for_winner st) = None"
  by (simp add: check_for_winner_wf split: option.split)

lemma new_game_play_vanish: "vanish_after (play (new_game v prior) clicks) = v"
  by (simp add: play_vanish_after new_game_record)

lemma play_new_game_length:
  "0 \<le> v \<Longrightarrow> int (length (move_history (play (new_game v prior) clicks))) \<le> 2 * v"
proof -
  assume "0 \<le> v"
  then have "int (length (move_history (new_game v prior))) \<le> vanish_after (new_game v prior) * 2"
    by (rule new_game_length)
  with new_game_consistent
  have "int (length (move_history (play (new_game v prior) clicks)))
      \<le> vanish_after (new_game v prior) * 2"
    by (rule play_length)
  then show ?thesis by (simp add: new_game_record)
qed

lemma evicted_history:
  "move_history st \<noteq> [] \<Longrightarrow>
   move_history (evicted st) =
     (if vanish_after st * 2 < int (length (move_history st)) then tl (move_history st)
      else move_history st)"
  by (cases "move_history st") (simp_all add: evicted_def)

lemma evicted_board:
  "move_history st \<noteq> [] \<Longrightarrow>
   board (evicted st) =
     (if vanish_after st * 2 < int (length (move_history st))
      then put_at (board st) (move_pos (hd (move_history st))) ''''
      else board st)"
  by (cases "move_history st") (simp_all add: evicted_def)

lemma filter_pos_one:
  "distinct (map f xs) \<Longrightarrow> p \<in> f ` set xs \<Longrightarrow> length (filter (\<lambda>m. f m = p) xs) = 1"
proof (induction xs)
  case Nil
  then show ?case by simp
next
  case (Cons x xs)
  show ?case
  proof (cases "f x = p")
    case True
    with Cons.prems have "p \<notin> f ` set xs" by auto
    then have "filter (\<lambda>m. f m = p) xs = []" by (auto simp: filter_empty_conv)
    with True show ?thesis by simp
  next
    case False
    with Cons show ?thesis by auto
  qed
qed

lemma wf_concat_length: "wf_board b \<Longrightarrow> length (concat b) = 9"
  by (simp add: concat_wf all_cells_def)

lemma full_count: "wf_board b \<Longrightarrow> is_board_full b \<Longrightarrow> count_nonempty b = 9"
proof -
  assume wf: "wf_board b" and "is_board_full b"
  then have "\<forall>c\<in>set (concat b). c \<noteq> ''''" by (auto simp: is_board_full_iff)
  then have "filter (\<lambda>c. c \<noteq> '''') (concat b) = concat b" by (simp add: filter_id_conv)
  with wf show ?thesis by (simp add: count_nonempty_def wf_concat_length)
qed

lemma not_full_below_five:
  assumes "0 \<le> v" "v \<le> 4"
  shows "\<not> is_board_full (board (play (new_game v prior) clicks))"
proof
  let ?st = "play (new_game v prior) clicks"
  assume full: "is_board_full (board ?st)"
  have bm: "board_matches ?st"
    using play_new_game_consistent[of v prior clicks] by (simp add: consistent_def)
  then have "wf_board (board ?st)" by (simp add: board_matches_def)
  from full_count[OF this full] count_nonempty_matches[OF bm]
  have "length (move_history ?st) = 9" by simp
  with play_new_game_length[OF assms(1), of prior clicks] assms(2) show False by simp
qed

lemma check_for_winner_won:
  "check_winner (board st) = Inr (Some w) \<Longrightarrow>
   check_for_winner st = (st\<lparr>winner := Some w, game_over := True\<rparr>, None)"
  by (frule check_winner_nonempty) (simp add: check_for_winner_def)

lemma check_for_winner_tied:
  "check_winner (board st) = Inr None \<Longrightarrow> is_board_full (board st) \<Longrightarrow>
   check_for_winner st = (st\<lparr>game_over := True, winner := Some ''Tie''\<rparr>, None)"
  by (simp add: check_for_winner_def)

lemma reset_game_new_game: "reset_game st = new_game (vanish_after st) st"
  by (simp add: new_game_def)

lemma select_vanish_after_new_game:
  "select_vanish_after v st = (if v \<noteq> vanish_after st then new_game v st else st)"
  by (simp add: select_vanish_after_def new_game_def)

lemma check_for_winner_tie_recorded:
  "wf_board (board st) \<Longrightarrow> tie_recorded (fst (check_for_winner st))"
  by (simp add: check_for_winner_wf tie_recorded_def split: option.split)

lemma make_move_tie_recorded:
  assumes con: "consistent st" and tr: "tie_recorded st"
  shows "tie_recorded (fst (make_move r c t st))"
proof -
  have wf: "wf_board (board st)" using con by (simp add: consistent_def board_matches_def)
  show ?thesis
  proof (cases "game_over st \<or> \<not> (in_range3 r \<and> in_range3 c) \<or>
         cell_at (board st) (norm_index r, norm_index c) \<noteq> ''''")
    case True
    then show ?thesis using tr by (simp add: make_move_guard[OF wf])
  next
    case False
    then have go: "\<not> game_over st" and gc: "get_cell (board st) r c = Inr ''''"
      using wf by (simp_all add: get_cell_wf)
    note ms = make_move_success[OF con go gc, of t]
    have "wf_board (board (evicted (placed r c t st)))"
      using ms(4) by (simp add: board_matches_def)
    then show ?thesis
      unfolding ms(3) by (rule check_for_winner_tie_recorded)
  qed
qed

lemma play_tie_recorded:
  "consistent st \<Longrightarrow> tie_recorded st \<Longrightarrow> tie_recorded (play st clicks)"
  by (induction st clicks rule: play.induct)
     (simp_all add: make_move_consistent make_move_tie_recorded)

lemma new_game_tie_recorded: "tie_recorded (new_game v prior)"
  by (simp add: tie_recorded_def new_game_record)

lemma full_board_tied:
  assumes st: "st = play (new_game v prior) clicks"
    and full: "is_board_full (board st)" and nw: "check_winner (board st) = Inr None"
  shows "game_over st \<and> winner st = Some ''Tie''"
proof -
  have con: "consistent st" unfolding st by (rule play_new_game_consistent)
  then have wf: "wf_board (board st)" by (simp add: consistent_def board_matches_def)
  have "tie_recorded st"
    unfolding st by (rule play_tie_recorded[OF new_game_consistent new_game_tie_recorded])
  moreover from nw have "first_winner (board st) = None"
    by (simp add: check_winner_refines[OF wf])
  ultimately have "winner st = Some ''Tie''" using full by (simp add: tie_recorded_def)
  with con show ?thesis by (simp add: consistent_def status_ok_def)
qed

section \<open>The claims\<close>


text \<open>
  Claim C8. Starting a new game leaves a fresh state whatever the store held before and
  whatever the vanish setting is: \<open>reset_game\<close> gives an empty 3 by 3 board, an empty
  move history, current player X, the game not over and no winner, and keeps the vanish
  setting. Choosing a vanish setting that differs from the stored one gives the same fresh
  state with the chosen setting; choosing the stored one is no new game and changes
  nothing. Neither function indexes a list, so neither can raise.
\<close>

theorem reset_game_fresh:
  "reset_game st =
     \<lparr>board = [['''', '''', ''''], ['''', '''', ''''], ['''', '''', '''']],
      move_history = [], current_player = ''X'', game_over = False, winner = None,
      vanish_after = vanish_after st\<rparr> \<and>
   select_vanish_after v st =
     (if v \<noteq> vanish_after st
      then \<lparr>board = [['''', '''', ''''], ['''', '''', ''''], ['''', '''', '''']],
            move_history = [], current_player = ''X'', game_over = False, winner = None,
            vanish_after = v\<rparr>
      else st)"
  by (cases st) (simp add: select_vanish_after_def reset_game_def empty_board_def)

text \<open>
  Claim C4. When the game is over (won or tied), or when the target cell, with row and
  column in 0..2, is already occupied, \<open>make_move\<close> raises nothing and returns the state
  it was given: board, history, current player and status are unchanged.
\<close>

theorem make_move_illegal_unchanged:
  assumes "game_over st \<or>
           (wf_board (board st) \<and> 0 \<le> row \<and> row \<le> 2 \<and> 0 \<le> col \<and> col \<le> 2 \<and>
            board st ! nat row ! nat col \<noteq> '''')"
  shows "make_move row col now st = (st, None)"
proof (cases "game_over st")
  case True
  then show ?thesis by (simp add: make_move_def)
next
  case False
  with assms have wf: "wf_board (board st)" and r: "0 \<le> row" "row \<le> 2"
    and c: "0 \<le> col" "col \<le> 2" and occ: "board st ! nat row ! nat col \<noteq> ''''"
    by simp_all
  from r c have "in_range3 row" "in_range3 col" "norm_index row = nat row"
    "norm_index col = nat col"
    by (simp_all add: in_range3_def norm_index_def)
  with wf occ have "get_cell (board st) row col = Inr (board st ! nat row ! nat col)"
    by (simp add: get_cell_wf cell_at_def)
  with occ False show ?thesis by (simp add: make_move_def)
qed

text \<open>The theorem at concrete states.\<close>

theorem make_move_illegal_unchanged_witness:
  "game_over finished_state \<and>
   make_move 2 2 (6::nat) finished_state = (finished_state, None) \<and>
   \<not> game_over (play (new_game 3 finished_state) [(1, 1, 1)]) \<and>
   wf_board (board (play (new_game 3 finished_state) [(1, 1, 1)])) \<and>
   board (play (new_game 3 finished_state) [(1, 1, 1)]) ! nat 1 ! nat 1 \<noteq> '''' \<and>
   make_move 1 1 (2::nat) (play (new_game 3 finished_state) [(1, 1, 1)]) =
     (play (new_game 3 finished_state) [(1, 1, 1)], None)"
proof -
  have a: "game_over finished_state" by (simp add: finished_state_def)
  have b: "\<not> game_over (play (new_game 3 finished_state) [(1, 1, 1)])" by code_simp
  have c: "wf_board (board (play (new_game 3 finished_state) [(1, 1, 1)]))" by code_simp
  have d: "board (play (new_game 3 finished_state) [(1, 1, 1)]) ! nat 1 ! nat 1 \<noteq> ''''"
    by code_simp
  from a have e: "make_move 2 2 (6::nat) finished_state = (finished_state, None)"
    by (intro make_move_illegal_unchanged) simp
  from c d have f: "make_move 1 1 (2::nat) (play (new_game 3 finished_state) [(1, 1, 1)]) =
     (play (new_game 3 finished_state) [(1, 1, 1)], None)"
    by (intro make_move_illegal_unchanged) simp
  from a b c d e f show ?thesis by blast
qed

text \<open>
  Claim C2 as stated fails: in a fresh game, row 3 raises IndexError, and row -1 is not
  a no-op.
\<close>

theorem make_move_out_of_range_counterexample:
  "make_move 3 0 (1::nat) (new_game 3 finished_state) =
     (new_game 3 finished_state, Some IndexError) \<and>
   make_move (- 1) 0 (1::nat) (new_game 3 finished_state) \<noteq> (new_game 3 finished_state, None)"
  by code_simp

text \<open>
  Claim C2, as amended. On a 3 by 3 board, a call of \<open>make_move\<close> with row or column
  outside -3..2 leaves the state unchanged; it raises nothing when the game is over and
  raises IndexError when the game is in progress. (Indices -3..-1 are not out of range for
  the code: they address the cells from the end.)
\<close>

theorem make_move_out_of_range:
  assumes "wf_board (board st)"
    and "row < - 3 \<or> 2 < row \<or> col < - 3 \<or> 2 < col"
  shows "make_move row col now st = (st, if game_over st then None else Some IndexError)"
  using assms make_move_guard[OF assms(1), of row col now]
  by (auto simp: in_range3_def)

text \<open>The theorem at concrete states.\<close>

theorem make_move_out_of_range_witness:
  "wf_board (board (new_game 3 finished_state)) \<and>
   make_move 3 0 (1::nat) (new_game 3 finished_state) =
     (new_game 3 finished_state, Some IndexError) \<and>
   wf_board (board finished_state) \<and>
   make_move 0 (- 4) (1::nat) finished_state = (finished_state, None)"
proof -
  have a: "wf_board (board (new_game 3 finished_state))" by code_simp
  have b: "wf_board (board finished_state)" by code_simp
  have c: "\<not> game_over (new_game 3 finished_state)" by code_simp
  have d: "game_over finished_state" by code_simp
  from make_move_out_of_range[OF a, of 3 0 1] c
  have e: "make_move 3 0 (1::nat) (new_game 3 finished_state) =
     (new_game 3 finished_state, Some IndexError)" by simp
  from make_move_out_of_range[OF b, of 0 "- 4" 1] d
  have f: "make_move 0 (- 4) (1::nat) finished_state = (finished_state, None)" by simp
  from a b e f show ?thesis by blast
qed

text \<open>
  Claim C1. In every state reached from a new game with a vanish limit \<open>v\<close> that is not
  negative, a successful move (game in progress, target cell empty) raises nothing, and
  when the history with the new move appended is longer than \<open>2 * v\<close> exactly one move is
  evicted: the history after the call is the appended history without its first entry, the
  board is the board with the new mark written and then the cell of that oldest entry
  cleared, and that cell reads empty. Otherwise nothing is evicted. The history is never
  longer than \<open>2 * v\<close>, before or after the call.
\<close>

theorem eviction_fifo:
  assumes v: "0 \<le> v" and st: "st = play (new_game v prior) clicks"
    and go: "\<not> game_over st" and gc: "get_cell (board st) row col = Inr ''''"
    and h1: "h1 = move_history st @ [(row, col, current_player st, now)]"
    and st': "st' = fst (make_move row col now st)"
  shows "snd (make_move row col now st) = None \<and>
         (if 2 * v < int (length h1)
          then move_history st' = tl h1 \<and>
               (\<exists>b1. set_cell (board st) row col (current_player st) = Inr b1 \<and>
                     set_cell b1 (fst (hd h1)) (fst (snd (hd h1))) '''' = Inr (board st')) \<and>
               get_cell (board st') (fst (hd h1)) (fst (snd (hd h1))) = Inr ''''
          else move_history st' = h1 \<and>
               set_cell (board st) row col (current_player st) = Inr (board st')) \<and>
         int (length (move_history st)) \<le> 2 * v \<and>
         int (length (move_history st')) \<le> 2 * v"
proof -
  have con: "consistent st" unfolding st by (rule play_new_game_consistent)
  have va: "vanish_after st = v" unfolding st by (rule new_game_play_vanish)
  have len: "int (length (move_history st)) \<le> 2 * v"
    unfolding st by (rule play_new_game_length[OF v])
  have wf: "wf_board (board st)" using con by (simp add: consistent_def board_matches_def)
  from get_cell_Inr_wf[OF wf gc] have r: "in_range3 row" and c: "in_range3 col" by simp_all
  let ?p = "placed row col now st"
  note ms = make_move_success[OF con go gc, of now]
  have bm2: "board_matches (evicted ?p)" by (rule ms(4))
  have wf2: "wf_board (board (evicted ?p))" using bm2 by (simp add: board_matches_def)
  have bm1: "board_matches ?p"
    using con r c get_cell_Inr_wf[OF wf gc] by (intro placed_matches) simp_all
  have wf1: "wf_board (board ?p)" using bm1 by (simp add: board_matches_def)
  have hp: "move_history ?p = h1" "vanish_after ?p = v"
    "board ?p = put_at (board st) (norm_index row, norm_index col) (current_player st)"
    by (simp_all add: placed_def h1 va)
  have ne: "move_history ?p \<noteq> []" by (simp add: placed_def)
  have e: "snd (make_move row col now st) = None"
    by (simp add: ms(3) check_for_winner_no_error[OF wf2])
  have hist: "move_history st' = (if 2 * v < int (length h1) then tl h1 else h1)"
    using evicted_history[OF ne] by (simp add: st' ms(3) check_for_winner_fields hp mult.commute)
  have brd: "board st' = (if 2 * v < int (length h1)
      then put_at (board ?p) (move_pos (hd h1)) '''' else board ?p)"
    using evicted_board[OF ne] by (simp add: st' ms(3) check_for_winner_fields hp mult.commute)
  have sc1: "set_cell (board st) row col (current_player st) = Inr (board ?p)"
    by (simp add: set_cell_wf[OF wf r c] hp)
  have hd_in: "hd h1 \<in> set (move_history ?p)" using ne hp by simp
  then have hr: "in_range3 (fst (hd h1))" "in_range3 (fst (snd (hd h1)))"
    using bm1 by (simp_all add: board_matches_def)
  have sc2: "set_cell (board ?p) (fst (hd h1)) (fst (snd (hd h1))) '''' =
      Inr (put_at (board ?p) (move_pos (hd h1)) '''')"
    by (simp add: set_cell_wf[OF wf1 hr] move_pos_def)
  have q: "move_pos (hd h1) \<in> set all_cells" using hr by (rule move_pos_cell)
  have gc2: "get_cell (put_at (board ?p) (move_pos (hd h1)) '''') (fst (hd h1)) (fst (snd (hd h1)))
      = Inr ''''"
    using get_cell_wf[OF wf_put_at[OF wf1] hr, of "move_pos (hd h1)" "''''"]
      cell_at_put_at[OF wf1 q q, of "''''"]
    by (simp add: move_pos_def)
  have len': "int (length (move_history st')) \<le> 2 * v"
    using len by (auto simp: hist h1)
  show ?thesis
  proof (cases "2 * v < int (length h1)")
    case True
    with e hist brd sc1 sc2 gc2 len len' show ?thesis by simp
  next
    case False
    with e hist brd sc1 len len' show ?thesis by simp
  qed
qed

text \<open>The theorem at concrete states.\<close>

theorem eviction_fifo_witness:
  "(0::int) \<le> 2 \<and>
   \<not> game_over (play (new_game 2 finished_state) [(0, 0, 1), (1, 1, 2), (0, 1, 3), (1, 0, 4)]) \<and>
   get_cell (board (play (new_game 2 finished_state) [(0, 0, 1), (1, 1, 2), (0, 1, 3), (1, 0, 4)]))
     2 2 = Inr '''' \<and>
   move_history (fst (make_move 2 2 5
       (play (new_game 2 finished_state) [(0, 0, 1), (1, 1, 2), (0, 1, 3), (1, 0, 4)]))) =
     [(1, 1, ''O'', 2), (0, 1, ''X'', 3), (1, 0, ''O'', 4), (2, 2, ''X'', 5)] \<and>
   get_cell (board (fst (make_move 2 2 5
       (play (new_game 2 finished_state) [(0, 0, 1), (1, 1, 2), (0, 1, 3), (1, 0, 4)])))) 0 0 =
     Inr ''''"
proof -
  let ?st = "play (new_game 2 finished_state) [(0, 0, 1), (1, 1, 2), (0, 1, 3), (1, 0, 4)]"
  have a: "(0::int) \<le> 2" by simp
  have b: "\<not> game_over ?st" by code_simp
  have c: "get_cell (board ?st) 2 2 = Inr ''''" by code_simp
  have h: "move_history ?st @ [(2, 2, current_player ?st, 5)] =
      [(0, 0, ''X'', 1), (1, 1, ''O'', 2), (0, 1, ''X'', 3), (1, 0, ''O'', 4), (2, 2, ''X'', 5)]"
    by code_simp
  from eviction_fifo[OF a refl b c refl refl, of 5] a b c
  show ?thesis unfolding h by simp
qed

text \<open>
  Claim C3. On a 3 by 3 board \<open>check_winner\<close> raises nothing and returns the mark of the
  first winning line in the order row 0, row 1, row 2, column 0, column 1, column 2, main
  diagonal, anti-diagonal, a line winning when its three cells are non-empty and identical
  (\<open>first_winner\<close>). In a successful move the check runs on the board that the vanishing
  rule left: when it finds a winner, the winner is stored, the game is over whether or not
  the board is full, and every later call of \<open>make_move\<close> leaves that state unchanged.
\<close>

theorem winner_check:
  "(wf_board b \<longrightarrow> check_winner b = Inr (first_winner b)) \<and>
   (\<not> game_over st \<and> get_cell (board st) row col = Inr '''' \<and>
    place_mark row col now st = (st1, None) \<and> handle_vanishing st1 = (st2, None) \<and>
    check_winner (board st2) = Inr (Some w) \<longrightarrow>
      make_move row col now st = (st2\<lparr>winner := Some w, game_over := True\<rparr>, None) \<and>
      make_move row' col' now' (st2\<lparr>winner := Some w, game_over := True\<rparr>) =
        (st2\<lparr>winner := Some w, game_over := True\<rparr>, None))"
proof (intro conjI impI)
  assume "wf_board b"
  then show "check_winner b = Inr (first_winner b)" by (rule check_winner_refines)
next
  assume a: "\<not> game_over st \<and> get_cell (board st) row col = Inr '''' \<and>
    place_mark row col now st = (st1, None) \<and> handle_vanishing st1 = (st2, None) \<and>
    check_winner (board st2) = Inr (Some w)"
  then have "make_move row col now st = check_for_winner st2"
    by (elim conjE) (rule make_move_steps)
  with a show "make_move row col now st = (st2\<lparr>winner := Some w, game_over := True\<rparr>, None)"
    by (simp add: check_for_winner_won)
next
  show "make_move row' col' now' (st2\<lparr>winner := Some w, game_over := True\<rparr>) =
        (st2\<lparr>winner := Some w, game_over := True\<rparr>, None)"
    by (simp add: make_move_def)
qed

text \<open>The theorem at concrete states.\<close>

theorem winner_check_witness:
  "wf_board (board four_moves) \<and>
   check_winner (board four_moves) = Inr None \<and> first_winner (board four_moves) = None \<and>
   \<not> game_over four_moves \<and> get_cell (board four_moves) 0 2 = Inr '''' \<and>
   place_mark 0 2 5 four_moves = (fst (place_mark 0 2 5 four_moves), None) \<and>
   handle_vanishing (fst (place_mark 0 2 5 four_moves)) = (fst (place_mark 0 2 5 four_moves), None) \<and>
   check_winner (board (fst (place_mark 0 2 5 four_moves))) = Inr (Some ''X'') \<and>
   \<not> is_board_full (board (fst (place_mark 0 2 5 four_moves))) \<and>
   make_move 0 2 5 four_moves =
     ((fst (place_mark 0 2 5 four_moves))\<lparr>winner := Some ''X'', game_over := True\<rparr>, None)"
proof -
  let ?st1 = "fst (place_mark 0 2 5 four_moves)"
  have a: "wf_board (board four_moves)" by code_simp
  have b: "first_winner (board four_moves) = None" by code_simp
  have c: "\<not> game_over four_moves" by code_simp
  have d: "get_cell (board four_moves) 0 2 = Inr ''''" by code_simp
  have e: "place_mark 0 2 5 four_moves = (?st1, None)" by code_simp
  have f: "handle_vanishing ?st1 = (?st1, None)" by code_simp
  have g: "check_winner (board ?st1) = Inr (Some ''X'')" by code_simp
  have h: "\<not> is_board_full (board ?st1)" by code_simp
  note w = winner_check[of "board four_moves" four_moves 0 2 5 ?st1 ?st1 "''X''"]
  from w a have i: "check_winner (board four_moves) = Inr (first_winner (board four_moves))"
    by blast
  from w c d e f g have j: "make_move 0 2 5 four_moves =
     (?st1\<lparr>winner := Some ''X'', game_over := True\<rparr>, None)"
    by blast
  from a b c d e f g h i j show ?thesis by simp
qed

text \<open>
  Claim C5. After any sequence of calls of \<open>make_move\<close> on a new game with vanish limit
  \<open>v\<close> (not negative), the number of non-empty cells of the board is at most \<open>2 * v\<close>. The
  sequence is arbitrary, so the bound holds at every state on the way.
\<close>

theorem nonempty_cells_bounded:
  assumes "0 \<le> v"
  shows "int (count_nonempty (board (play (new_game v prior) clicks))) \<le> 2 * v"
proof -
  have "board_matches (play (new_game v prior) clicks)"
    using play_new_game_consistent[of v prior clicks] by (simp add: consistent_def)
  then have "count_nonempty (board (play (new_game v prior) clicks)) =
      length (move_history (play (new_game v prior) clicks))"
    by (rule count_nonempty_matches)
  with play_new_game_length[OF assms, of prior clicks] show ?thesis by simp
qed

text \<open>The theorem at concrete states.\<close>

theorem nonempty_cells_bounded_witness:
  "(0::int) \<le> 2 \<and>
   count_nonempty (board (play (new_game 2 finished_state)
      [(0, 0, 1), (1, 1, 2), (0, 1, 3), (1, 0, 4), (2, 2, 5)])) = 4 \<and>
   int (count_nonempty (board (play (new_game 2 finished_state)
      [(0, 0, 1), (1, 1, 2), (0, 1, 3), (1, 0, 4), (2, 2, 5)]))) \<le> 2 * 2"
proof -
  have a: "(0::int) \<le> 2" by simp
  have b: "count_nonempty (board (play (new_game 2 finished_state)
      [(0, 0, 1), (1, 1, 2), (0, 1, 3), (1, 0, 4), (2, 2, 5)])) = 4" by code_simp
  from nonempty_cells_bounded[OF a, of finished_state
      "[(0, 0, 1), (1, 1, 2), (0, 1, 3), (1, 0, 4), (2, 2, 5)]"] a b
  show ?thesis by simp
qed

text \<open>
  Claim C6. After a successful move that leaves the game in progress, the current player
  differs from the one before the call and is the mark that was not just played: O after
  X, X after O. A new game starts with X, and in every state reached from a new game the
  current player is X or O.
\<close>

theorem turn_alternates:
  assumes "\<not> game_over st" and "get_cell (board st) row col = Inr ''''"
    and "make_move row col now st = (st', None)" and "\<not> game_over st'"
  shows "current_player st' \<noteq> current_player st \<and>
         (current_player st = ''X'' \<longrightarrow> current_player st' = ''O'') \<and>
         (current_player st = ''O'' \<longrightarrow> current_player st' = ''X'') \<and>
         current_player (new_game v prior) = ''X'' \<and>
         (current_player (play (new_game v prior) clicks) = ''X'' \<or>
          current_player (play (new_game v prior) clicks) = ''O'')"
proof -
  have "current_player st' = (if current_player st = ''X'' then ''O'' else ''X'')"
    using assms by (rule make_move_in_progress)
  moreover have "current_player (new_game v prior) = ''X''"
    by (simp add: new_game_record)
  moreover have "current_player (play (new_game v prior) clicks) = ''X'' \<or>
          current_player (play (new_game v prior) clicks) = ''O''"
    using play_new_game_consistent[of v prior clicks] by (simp add: consistent_def status_ok_def)
  ultimately show ?thesis by auto
qed

text \<open>The theorem at concrete states.\<close>

theorem turn_alternates_witness:
  "\<not> game_over (new_game 3 finished_state) \<and>
   get_cell (board (new_game 3 finished_state)) 1 1 = Inr '''' \<and>
   snd (make_move 1 1 (1::nat) (new_game 3 finished_state)) = None \<and>
   \<not> game_over (fst (make_move 1 1 (1::nat) (new_game 3 finished_state))) \<and>
   current_player (new_game 3 finished_state) = ''X'' \<and>
   current_player (fst (make_move 1 1 (1::nat) (new_game 3 finished_state))) = ''O''"
proof -
  have a: "\<not> game_over (new_game 3 finished_state)" by code_simp
  have b: "get_cell (board (new_game 3 finished_state)) 1 1 = Inr ''''" by code_simp
  have c: "snd (make_move 1 1 (1::nat) (new_game 3 finished_state)) = None" by code_simp
  then have c': "make_move 1 1 (1::nat) (new_game 3 finished_state) =
      (fst (make_move 1 1 (1::nat) (new_game 3 finished_state)), None)"
    by (simp add: prod_eq_iff)
  have d: "\<not> game_over (fst (make_move 1 1 (1::nat) (new_game 3 finished_state)))" by code_simp
  from turn_alternates[OF a b c' d, of 3 finished_state "[]"] a b c d
  show ?thesis by simp
qed

text \<open>
  Claim C7. \<open>is_board_full\<close> is true exactly when no cell of the board is empty. In a
  successful move, when the board that the vanishing rule left has no winner and is full,
  the game is over with winner \<open>Tie\<close>. Hence in every state played from a new game, with
  any vanish setting, a full board without a winner means the game is over and tied.
  Scenario C of the specification is the case of vanish setting 3 of this last part; there
  the board is never full (\<open>not_full_below_five\<close>), so the scenario cannot arise, and the
  theorem is exercised at vanish setting 5, where nine clicks fill the board.
\<close>

theorem tie_check:
  "(is_board_full b \<longleftrightarrow> '''' \<notin> set (concat b)) \<and>
   (\<not> game_over st \<and> get_cell (board st) row col = Inr '''' \<and>
    place_mark row col now st = (st1, None) \<and> handle_vanishing st1 = (st2, None) \<and>
    check_winner (board st2) = Inr None \<and> is_board_full (board st2) \<longrightarrow>
      make_move row col now st = (st2\<lparr>game_over := True, winner := Some ''Tie''\<rparr>, None)) \<and>
   (is_board_full (board (play (new_game v prior) clicks)) \<and>
    check_winner (board (play (new_game v prior) clicks)) = Inr None \<longrightarrow>
      game_over (play (new_game v prior) clicks) \<and>
      winner (play (new_game v prior) clicks) = Some ''Tie'')"
proof (intro conjI impI)
  show "is_board_full b \<longleftrightarrow> '''' \<notin> set (concat b)" by (rule is_board_full_iff)
next
  assume a: "\<not> game_over st \<and> get_cell (board st) row col = Inr '''' \<and>
    place_mark row col now st = (st1, None) \<and> handle_vanishing st1 = (st2, None) \<and>
    check_winner (board st2) = Inr None \<and> is_board_full (board st2)"
  then have "make_move row col now st = check_for_winner st2"
    by (elim conjE) (rule make_move_steps)
  with a show "make_move row col now st = (st2\<lparr>game_over := True, winner := Some ''Tie''\<rparr>, None)"
    by (simp add: check_for_winner_tied)
next
  assume a: "is_board_full (board (play (new_game v prior) clicks)) \<and>
    check_winner (board (play (new_game v prior) clicks)) = Inr None"
  then show "game_over (play (new_game v prior) clicks)"
    using full_board_tied[OF refl, of v prior clicks] by simp
  from a show "winner (play (new_game v prior) clicks) = Some ''Tie''"
    using full_board_tied[OF refl, of v prior clicks] by simp
qed

text \<open>The theorem at concrete states.\<close>

theorem tie_check_witness:
  "\<not> game_over eight_moves \<and> get_cell (board eight_moves) 2 0 = Inr '''' \<and>
   place_mark 2 0 9 eight_moves = (fst (place_mark 2 0 9 eight_moves), None) \<and>
   handle_vanishing (fst (place_mark 2 0 9 eight_moves)) =
     (fst (place_mark 2 0 9 eight_moves), None) \<and>
   check_winner (board (fst (place_mark 2 0 9 eight_moves))) = Inr None \<and>
   is_board_full (board (fst (place_mark 2 0 9 eight_moves))) \<and>
   '''' \<notin> set (concat (board (fst (place_mark 2 0 9 eight_moves)))) \<and>
   make_move 2 0 9 eight_moves =
     ((fst (place_mark 2 0 9 eight_moves))\<lparr>game_over := True, winner := Some ''Tie''\<rparr>, None) \<and>
   is_board_full (board (play (new_game 5 finished_state) nine_clicks)) \<and>
   check_winner (board (play (new_game 5 finished_state) nine_clicks)) = Inr None \<and>
   game_over (play (new_game 5 finished_state) nine_clicks) \<and>
   winner (play (new_game 5 finished_state) nine_clicks) = Some ''Tie''"
proof -
  let ?st1 = "fst (place_mark 2 0 9 eight_moves)"
  let ?end = "play (new_game 5 finished_state) nine_clicks"
  have c: "\<not> game_over eight_moves" by code_simp
  have d: "get_cell (board eight_moves) 2 0 = Inr ''''" by code_simp
  have e: "place_mark 2 0 9 eight_moves = (?st1, None)" by code_simp
  have f: "handle_vanishing ?st1 = (?st1, None)" by code_simp
  have g: "check_winner (board ?st1) = Inr None" by code_simp
  have h: "is_board_full (board ?st1)" by code_simp
  have k: "is_board_full (board ?end)" by code_simp
  have l: "check_winner (board ?end) = Inr None" by code_simp
  note w = tie_check[of "board ?st1" eight_moves 2 0 9 ?st1 ?st1 5 finished_state nine_clicks]
  from w h have i: "'''' \<notin> set (concat (board ?st1))" by blast
  from w c d e f g h have j: "make_move 2 0 9 eight_moves =
     (?st1\<lparr>game_over := True, winner := Some ''Tie''\<rparr>, None)"
    by blast
  from w k l have m: "game_over ?end \<and> winner ?end = Some ''Tie''" by blast
  from c d e f g h i j k l m show ?thesis by simp
qed

text \<open>
  Claim C9. In every state reached from a new game by calls of \<open>make_move\<close>, board and
  history correspond one to one: each history entry \<open>(row, col, player, time)\<close> has
  \<open>board[row][col]\<close> equal to its player's mark, which is X or O; no two entries have the
  same \<open>(row, col)\<close>, nor address the same cell; and every non-empty cell is addressed by
  exactly one history entry.
\<close>

theorem board_history_correspond:
  assumes "st = play (new_game v prior) clicks"
  shows "(\<forall>m\<in>set (move_history st).
            get_cell (board st) (fst m) (fst (snd m)) = Inr (fst (snd (snd m))) \<and>
            (fst (snd (snd m)) = ''X'' \<or> fst (snd (snd m)) = ''O'')) \<and>
         distinct (map (\<lambda>m. (fst m, fst (snd m))) (move_history st)) \<and>
         distinct (map move_pos (move_history st)) \<and>
         (\<forall>i<3. \<forall>j<3. board st ! i ! j \<noteq> '''' \<longrightarrow>
            length (filter (\<lambda>m. move_pos m = (i, j)) (move_history st)) = 1)"
proof -
  have bm: "board_matches st"
    unfolding assms using play_new_game_consistent[of v prior clicks] by (simp add: consistent_def)
  then have wf: "wf_board (board st)" by (simp add: board_matches_def)
  have d: "distinct (map move_pos (move_history st))" using bm by (simp add: board_matches_def)
  have 1: "\<forall>m\<in>set (move_history st).
            get_cell (board st) (fst m) (fst (snd m)) = Inr (fst (snd (snd m))) \<and>
            (fst (snd (snd m)) = ''X'' \<or> fst (snd (snd m)) = ''O'')"
  proof
    fix m assume "m \<in> set (move_history st)"
    with bm have "in_range3 (fst m)" "in_range3 (fst (snd m))"
      "move_player m = ''X'' \<or> move_player m = ''O''"
      "cell_at (board st) (move_pos m) = move_player m"
      by (simp_all add: board_matches_def)
    then show "get_cell (board st) (fst m) (fst (snd m)) = Inr (fst (snd (snd m))) \<and>
            (fst (snd (snd m)) = ''X'' \<or> fst (snd (snd m)) = ''O'')"
      using wf by (simp add: get_cell_wf move_pos_def move_player_def)
  qed
  have "map move_pos (move_history st) =
      map (\<lambda>p. (norm_index (fst p), norm_index (snd p)))
        (map (\<lambda>m. (fst m, fst (snd m))) (move_history st))"
    by (simp add: move_pos_def)
  with d have "distinct (map (\<lambda>p. (norm_index (fst p), norm_index (snd p)))
        (map (\<lambda>m. (fst m, fst (snd m))) (move_history st)))" by simp
  then have 2: "distinct (map (\<lambda>m. (fst m, fst (snd m))) (move_history st))"
    unfolding distinct_map[of "\<lambda>p. (norm_index (fst p), norm_index (snd p))"] by (rule conjunct1)
  have 3: "\<forall>i<3. \<forall>j<3. board st ! i ! j \<noteq> '''' \<longrightarrow>
            length (filter (\<lambda>m. move_pos m = (i, j)) (move_history st)) = 1"
  proof (intro allI impI)
    fix i j :: nat assume "i < 3" "j < 3" "board st ! i ! j \<noteq> ''''"
    then have "(i, j) \<in> set all_cells" "cell_at (board st) (i, j) \<noteq> ''''"
      by (simp_all add: all_cells_iff cell_at_def)
    with bm have "(i, j) \<in> move_pos ` set (move_history st)"
      by (simp add: board_matches_def)
    with d show "length (filter (\<lambda>m. move_pos m = (i, j)) (move_history st)) = 1"
      by (rule filter_pos_one)
  qed
  from 1 2 d 3 show ?thesis by blast
qed

text \<open>The theorem at concrete states.\<close>

theorem board_history_correspond_witness:
  "(1, 1, ''O'', 2) \<in> set (move_history five_moves) \<and>
   get_cell (board five_moves) 1 1 = Inr ''O'' \<and>
   board five_moves ! 1 ! 1 \<noteq> '''' \<and>
   length (filter (\<lambda>m. move_pos m = (1, 1)) (move_history five_moves)) = 1 \<and>
   distinct (map (\<lambda>m. (fst m, fst (snd m))) (move_history five_moves))"
proof -
  have a: "(1, 1, ''O'', 2) \<in> set (move_history five_moves)" by code_simp
  have b: "board five_moves ! 1 ! 1 \<noteq> ''''" by code_simp
  note t = board_history_correspond[OF five_moves_def]
  from t a have c: "get_cell (board five_moves) (fst (1::int, 1::int, ''O'', 2::nat))
      (fst (snd (1::int, 1::int, ''O'', 2::nat))) = Inr (fst (snd (snd (1::int, 1::int, ''O'', 2::nat))))"
    by blast
  from t b have d: "length (filter (\<lambda>m. move_pos m = (1, 1)) (move_history five_moves)) = 1"
    by simp
  from t have e: "distinct (map (\<lambda>m. (fst m, fst (snd m))) (move_history five_moves))"
    by blast
  from a b c d e show ?thesis by simp
qed

text \<open>
  Claim C10. With a vanish limit of at most 4 (and not negative; in particular 2, 3 and 4),
  no sequence of calls of \<open>make_move\<close> on a new game reaches a tie: the winner is never
  \<open>Tie\<close>, the board is never full, a game that is over has winner X or O, and a game that is
  not over has no winner.
\<close>

theorem no_tie_below_five:
  assumes "0 \<le> v" and "v \<le> 4" and "st = play (new_game v prior) clicks"
  shows "winner st \<noteq> Some ''Tie'' \<and> \<not> is_board_full (board st) \<and>
         (game_over st \<longrightarrow> winner st = Some ''X'' \<or> winner st = Some ''O'') \<and>
         (\<not> game_over st \<longrightarrow> winner st = None)"
proof -
  have nf: "\<not> is_board_full (board st)"
    unfolding assms(3) by (rule not_full_below_five[OF assms(1,2)])
  have "status_ok st"
    unfolding assms(3) using play_new_game_consistent[of v prior clicks]
    by (simp add: consistent_def)
  with nf show ?thesis by (auto simp: status_ok_def)
qed

text \<open>The theorem at concrete states.\<close>

theorem no_tie_below_five_witness:
  "(0::int) \<le> 3 \<and> (3::int) \<le> 4 \<and>
   winner (play (new_game 3 finished_state) nine_clicks) \<noteq> Some ''Tie'' \<and>
   \<not> is_board_full (board (play (new_game 3 finished_state) nine_clicks)) \<and>
   \<not> game_over (play (new_game 3 finished_state) nine_clicks) \<and>
   winner (play (new_game 3 finished_state) nine_clicks) = None"
proof -
  have a: "(0::int) \<le> 3" and b: "(3::int) \<le> 4" by simp_all
  have c: "\<not> game_over (play (new_game 3 finished_state) nine_clicks)" by code_simp
  from no_tie_below_five[OF a b refl, of finished_state nine_clicks] c
  show ?thesis by simp
qed

end
